theory Spec2Isabelle
  imports Main
begin

section \<open>Data model\<close>

text \<open>
  The collector of \<^verbatim>\<open>src/gc/GC.cpp\<close> works on values declared in headers that are not
  part of the sources at hand (\<^verbatim>\<open>JavaType.h\<close>, \<^verbatim>\<open>JavaHeap.hpp\<close>, \<^verbatim>\<open>MethodArea.h\<close>,
  \<^verbatim>\<open>GC.h\<close>). Their shape is taken from the way \<^verbatim>\<open>GC.cpp\<close> uses them.
\<close>

type_synonym offset = nat

text \<open>
  A \<^verbatim>\<open>JType*\<close> is either \<^verbatim>\<open>nullptr\<close> or points to a value whose dynamic type is
  \<^verbatim>\<open>JObject\<close> (with an \<^verbatim>\<open>offset\<close>), \<^verbatim>\<open>JArray\<close> (with an \<^verbatim>\<open>offset\<close>) or any
  other subclass of \<^verbatim>\<open>JType\<close>.
\<close>

datatype JType = is_JObject: JObject offset | is_JArray: JArray offset | JOther

type_synonym jref = "JType option"

datatype error =
    InvariantViolation  \<comment> \<open>the process is aborted on an internal invariant violation\<close>
  | BadTypeid           \<comment> \<open>\<^verbatim>\<open>typeid(*p)\<close> with \<^verbatim>\<open>p == nullptr\<close>\<close>
  | MemoryFault         \<comment> \<open>a read through a dangling or null pointer, or past a buffer\<close>
  | Blocked             \<comment> \<open>a wait on a condition that nobody will signal\<close>
  | OutOfFuel           \<comment> \<open>the recursion of \<^verbatim>\<open>mark\<close> is deeper than the bound given\<close>

text \<open>One frame of a frame chain; the \<^verbatim>\<open>next\<close> pointer is the tail of the list.\<close>

record Frame =
  maxStack :: int
  stackSlots :: "jref list"
  maxLocal :: int
  localSlots :: "jref list"

type_synonym JavaFrame = "Frame list"

text \<open>
  A class, as far as the collector looks at it: the entries of its \<^verbatim>\<open>staticVars\<close>, a
  \<^verbatim>\<open>size_t\<close> key and a \<^verbatim>\<open>JType*\<close> each.
\<close>

record JavaClass =
  staticVars :: "(nat \<times> jref) list"

text \<open>
  \<^verbatim>\<open>GCPolicy\<close>: the enumerator \<^verbatim>\<open>gc\<close> names, and \<open>GC_OTHER n\<close> for any other value
  of the enumeration.
\<close>

datatype GCPolicy = GC_MARK_AND_SWEEP | GC_OTHER nat

text \<open>
  A future is known by the number of the submission that made it; a monitor by the
  address of its \<^verbatim>\<open>ObjectMonitor\<close>.
\<close>

type_synonym future = nat

type_synonym monitor = nat

text \<open>
  The closures handed to the worker pool, one constructor for each lambda of
  \<^verbatim>\<open>markAndSweep\<close> and \<^verbatim>\<open>sweep\<close>, with the variables it captures.
\<close>

datatype task =
    StackMark Frame
  | LocalMark Frame
  | StaticFieldsMark
  | ObjectSweep
  | ArraySweep
  | MonitorSweep

text \<open>
  The state the collector reads and writes: the heap containers of \<^verbatim>\<open>yrt.jheap\<close>, the
  class table of \<^verbatim>\<open>yrt.ma\<close>, the members of \<^verbatim>\<open>ConcurrentGC\<close> and those of its
  \<^verbatim>\<open>GCThreadPool\<close>. A container is the list of the entries of its \<^verbatim>\<open>data\<close> map in
  iteration order. The queue holds each pending task with its future, and
  \<open>nextFuture\<close> is the future the next submission makes. Offsets and the rendezvous
  count are natural numbers: the collector compares and inserts offsets and only ever
  raises the count.
\<close>

record vm =
  objectContainer :: "(offset \<times> jref list) list"
  arrayContainer :: "(offset \<times> nat \<times> jref list) list"
  monitorContainer :: "(offset \<times> monitor) list"
  classTable :: "(string \<times> JavaClass) list"
  frames :: "JavaFrame option"
  overMemoryThreshold :: bool
  objectBitmap :: "offset set"
  arrayBitmap :: "offset set"
  safepointWaitCnt :: nat
  work :: bool
  taskQueue :: "(future \<times> task) list"
  nextFuture :: future

section \<open>Marking\<close>

text \<open>
  Modelled from the spec: \<^verbatim>\<open>JavaHeap::getFields\<close> and \<^verbatim>\<open>JavaHeap::getElements\<close> are
  not in the sources; the heap "must expose enumeration of an object's reference-typed
  fields given an object handle" and "of an array's element slots and its length given
  an array handle", out of containers "keyed by a stable offset identifier". A handle
  whose offset has no entry is a dangling reference.
\<close>

definition getFields :: "vm \<Rightarrow> offset \<Rightarrow> jref list option" where
  "getFields s off = map_of (objectContainer s) off"

definition getElements :: "vm \<Rightarrow> offset \<Rightarrow> (nat \<times> jref list) option" where
  "getElements s off = map_of (arrayContainer s) off"

text \<open>
  The loop \<^verbatim>\<open>for (i = 0; i < n; i++) f(buf[i])\<close> over a buffer: it stops at the first
  failure of \<open>f\<close>, and reading past the end of the buffer is a fault.
\<close>

fun for_slots :: "(jref \<Rightarrow> 's \<Rightarrow> error + 's) \<Rightarrow> nat \<Rightarrow> jref list \<Rightarrow> 's \<Rightarrow> error + 's" where
  "for_slots f 0 buf s = Inr s"
| "for_slots f (Suc n) [] s = Inl MemoryFault"
| "for_slots f (Suc n) (x # buf) s =
     (case f x s of Inl e \<Rightarrow> Inl e | Inr s' \<Rightarrow> for_slots f n buf s')"

text \<open>
  Modelled from the spec: the macro \<^verbatim>\<open>SHOULD_NOT_REACH_HERE\<close> is not in the sources.
  The branch that holds it "signals an internal invariant violation (fatal, not
  recoverable)", which "aborts the process": no state is left to go on with.
\<close>

definition SHOULD_NOT_REACH_HERE :: "error + 's" where
  "SHOULD_NOT_REACH_HERE = Inl InvariantViolation"

text \<open>
  The body of \<^verbatim>\<open>ConcurrentGC::mark\<close>, with the recursive call as the parameter
  \<open>rec\<close>. The spin locks guard single insertions and leave no trace in the state.
\<close>

definition mark_body :: "(jref \<Rightarrow> vm \<Rightarrow> error + vm) \<Rightarrow> jref \<Rightarrow> vm \<Rightarrow> error + vm" where
  "mark_body rec ref s =
     (case ref of
        None \<Rightarrow> Inr s
      | Some (JObject off) \<Rightarrow>
          (let s' = s\<lparr>objectBitmap := insert off (objectBitmap s)\<rparr> in
           case getFields s' off of
             None \<Rightarrow> Inl MemoryFault
           | Some flds \<Rightarrow> for_slots rec (length flds) flds s')
      | Some (JArray off) \<Rightarrow>
          (let s' = s\<lparr>arrayBitmap := insert off (arrayBitmap s)\<rparr> in
           case getElements s' off of
             None \<Rightarrow> Inl MemoryFault
           | Some items \<Rightarrow> for_slots rec (fst items) (snd items) s')
      | Some JOther \<Rightarrow> SHOULD_NOT_REACH_HERE)"

text \<open>
  \<^verbatim>\<open>mark\<close> recurses without a bound (a cyclic heap never lets it return), so the model
  takes the depth of recursion it may use: \<open>mark n\<close> is the body unrolled \<open>n + 1\<close>
  times, and a call below that depth is \<open>OutOfFuel\<close>.
\<close>

primrec mark :: "nat \<Rightarrow> jref \<Rightarrow> vm \<Rightarrow> error + vm" where
  "mark 0 = mark_body (\<lambda>ref s. Inl OutOfFuel)"
| "mark (Suc fuel) = mark_body (mark fuel)"

text \<open>
  The body of the static-field task of \<^verbatim>\<open>markAndSweep\<close>: for every entry of a class's
  \<^verbatim>\<open>staticVars\<close> the \<^emph>\<open>key\<close> of the entry is inserted, into the object mark set when
  the value is a \<^verbatim>\<open>JObject\<close>, into the array mark set when it is a \<^verbatim>\<open>JArray\<close>, and
  nothing is followed. There is no null check before \<^verbatim>\<open>typeid(*offset.second)\<close>.
\<close>

fun mark_static_vars :: "(nat \<times> jref) list \<Rightarrow> vm \<Rightarrow> error + vm" where
  "mark_static_vars [] s = Inr s"
| "mark_static_vars ((key, ref) # rest) s =
     (case ref of
        None \<Rightarrow> Inl BadTypeid
      | Some (JObject off) \<Rightarrow>
          mark_static_vars rest (s\<lparr>objectBitmap := insert key (objectBitmap s)\<rparr>)
      | Some (JArray off) \<Rightarrow>
          mark_static_vars rest (s\<lparr>arrayBitmap := insert key (arrayBitmap s)\<rparr>)
      | Some JOther \<Rightarrow> mark_static_vars rest s)"

fun mark_static_fields :: "(string \<times> JavaClass) list \<Rightarrow> vm \<Rightarrow> error + vm" where
  "mark_static_fields [] s = Inr s"
| "mark_static_fields ((name, c) # rest) s =
     (case mark_static_vars (staticVars c) s of
        Inl e \<Rightarrow> Inl e
      | Inr s' \<Rightarrow> mark_static_fields rest s')"

section \<open>Sweeping\<close>

text \<open>
  The three loops of \<^verbatim>\<open>sweep\<close>, each over the entries of one container: an entry is
  erased or kept, and the iteration goes on with the next one. Releasing the element
  buffer of an erased array leaves nothing behind in this state.
\<close>

fun sweep_objects :: "offset set \<Rightarrow> (offset \<times> jref list) list \<Rightarrow> (offset \<times> jref list) list" where
  "sweep_objects ob [] = []"
| "sweep_objects ob (pos # rest) =
     (if fst pos \<notin> ob then sweep_objects ob rest else pos # sweep_objects ob rest)"

fun sweep_arrays ::
  "offset set \<Rightarrow> (offset \<times> nat \<times> jref list) list \<Rightarrow> (offset \<times> nat \<times> jref list) list" where
  "sweep_arrays ab [] = []"
| "sweep_arrays ab (pos # rest) =
     (if fst pos \<notin> ab then sweep_arrays ab rest else pos # sweep_arrays ab rest)"

fun sweep_monitors ::
  "offset set \<Rightarrow> offset set \<Rightarrow> (offset \<times> monitor) list \<Rightarrow> (offset \<times> monitor) list" where
  "sweep_monitors ob ab [] = []"
| "sweep_monitors ob ab (pos # rest) =
     (if fst pos \<notin> ob \<or> fst pos \<notin> ab then sweep_monitors ob ab rest
      else pos # sweep_monitors ob ab rest)"

section \<open>The worker pool\<close>

text \<open>What a worker does when it runs a task it has taken from the queue.\<close>

fun run_task :: "nat \<Rightarrow> task \<Rightarrow> vm \<Rightarrow> error + vm" where
  "run_task fuel (StackMark temp) s =
     for_slots (mark fuel) (nat (maxStack temp)) (stackSlots temp) s"
| "run_task fuel (LocalMark temp) s =
     for_slots (mark fuel) (nat (maxLocal temp)) (localSlots temp) s"
| "run_task fuel StaticFieldsMark s = mark_static_fields (classTable s) s"
| "run_task fuel ObjectSweep s =
     Inr (s\<lparr>objectContainer := sweep_objects (objectBitmap s) (objectContainer s)\<rparr>)"
| "run_task fuel ArraySweep s =
     Inr (s\<lparr>arrayContainer := sweep_arrays (arrayBitmap s) (arrayContainer s)\<rparr>)"
| "run_task fuel MonitorSweep s =
     Inr (s\<lparr>monitorContainer :=
            sweep_monitors (objectBitmap s) (arrayBitmap s) (monitorContainer s)\<rparr>)"

text \<open>
  Modelled from the spec: \<^verbatim>\<open>GCThreadPool::submit\<close>, \<^verbatim>\<open>signalWork\<close> and
  \<^verbatim>\<open>signalWait\<close> are declared in \<^verbatim>\<open>GC.h\<close>, which is not in the sources.
  "\<^verbatim>\<open>submit(task)\<close> enqueues a zero-argument unit of work and returns a handle the
  caller can wait on"; \<^verbatim>\<open>signalWork\<close> and \<^verbatim>\<open>signalWait\<close> "transition the pool's wake
  flag", the flag the loop of \<^verbatim>\<open>runPendingWork\<close> sleeps on.
\<close>

definition submit :: "task \<Rightarrow> vm \<Rightarrow> future \<times> vm" where
  "submit t s =
     (nextFuture s,
      s\<lparr>taskQueue := taskQueue s @ [(nextFuture s, t)], nextFuture := Suc (nextFuture s)\<rparr>)"

definition signalWork :: "vm \<Rightarrow> vm" where
  "signalWork s = s\<lparr>work := True\<rparr>"

definition signalWait :: "vm \<Rightarrow> vm" where
  "signalWait s = s\<lparr>work := False\<rparr>"

text \<open>The task of a future that is still in the queue, and the queue without it.\<close>

fun take_task :: "future \<Rightarrow> (future \<times> task) list \<Rightarrow> (task \<times> (future \<times> task) list) option" where
  "take_task f [] = None"
| "take_task f (p # q) =
     (if fst p = f then Some (snd p, q)
      else (case take_task f q of None \<Rightarrow> None | Some (t, q') \<Rightarrow> Some (t, p # q')))"

text \<open>
  Modelled from the spec: \<^verbatim>\<open>future::get\<close>, "whose \<^verbatim>\<open>.get()\<close> blocks the coordinating
  thread until that specific task's worker finishes". The workers of
  \<^verbatim>\<open>runPendingWork\<close> take tasks only while the flag \<^verbatim>\<open>work\<close> is set. A task runs
  somewhere between its submission and the return of \<^verbatim>\<open>get\<close>; the model runs it at
  the last moment this allows, when it is awaited, so a task that is never awaited has
  not run. The marking tasks only insert into the mark sets and the sweeping tasks
  work on three different containers, so the order in which tasks run does not change
  the state they leave.
\<close>

definition future_get :: "nat \<Rightarrow> future \<Rightarrow> vm \<Rightarrow> error + vm" where
  "future_get fuel f s =
     (case take_task f (taskQueue s) of
        None \<Rightarrow> Inr s
      | Some (t, q) \<Rightarrow>
          if work s then run_task fuel t (s\<lparr>taskQueue := q\<rparr>) else Inl Blocked)"

text \<open>The loops \<^verbatim>\<open>for (auto& f : futures) f.get()\<close>.\<close>

fun get_all :: "nat \<Rightarrow> future list \<Rightarrow> vm \<Rightarrow> error + vm" where
  "get_all fuel [] s = Inr s"
| "get_all fuel (f # fs) s =
     (case future_get fuel f s of Inl e \<Rightarrow> Inl e | Inr s' \<Rightarrow> get_all fuel fs s')"

section \<open>The collector\<close>

definition sweep :: "nat \<Rightarrow> vm \<Rightarrow> error + vm" where
  "sweep fuel s =
     (let (objectFuture, s1) = submit ObjectSweep s;
          (arrayFuture, s2) = submit ArraySweep s1;
          (monitorFuture, s3) = submit MonitorSweep s2
      in get_all fuel [objectFuture, arrayFuture, monitorFuture] s3)"

text \<open>
  The \<^verbatim>\<open>while (temp != nullptr)\<close> loop of \<^verbatim>\<open>markAndSweep\<close>: two tasks for each frame
  of the chain, their futures pushed onto \<^verbatim>\<open>stackMarkFuture\<close> and
  \<^verbatim>\<open>localMarkFuture\<close>.
\<close>

fun submit_frames ::
  "Frame list \<Rightarrow> future list \<times> future list \<times> vm \<Rightarrow> future list \<times> future list \<times> vm" where
  "submit_frames [] acc = acc"
| "submit_frames (temp # next) (stackMarkFuture, localMarkFuture, s) =
     (let (sf, s1) = submit (StackMark temp) s;
          (lf, s2) = submit (LocalMark temp) s1
      in submit_frames next (stackMarkFuture @ [sf], localMarkFuture @ [lf], s2))"

text \<open>
  \<^verbatim>\<open>markAndSweep\<close> up to the call of \<^verbatim>\<open>sweep\<close>: the tasks are submitted, then the
  static-field future, the stack futures and the local futures are awaited, in this
  order. \<^verbatim>\<open>frames->top()\<close> on a null \<^verbatim>\<open>frames\<close> is a fault.
\<close>

definition mark_phase :: "nat \<Rightarrow> vm \<Rightarrow> error + vm" where
  "mark_phase fuel s =
     (case frames s of
        None \<Rightarrow> Inl MemoryFault
      | Some chain \<Rightarrow>
          (let (stackMarkFuture, localMarkFuture, s1) = submit_frames chain ([], [], s);
               (staticFieldsFuture, s2) = submit StaticFieldsMark s1
           in get_all fuel (staticFieldsFuture # stackMarkFuture @ localMarkFuture) s2))"

definition markAndSweep :: "nat \<Rightarrow> vm \<Rightarrow> error + vm" where
  "markAndSweep fuel s =
     (case mark_phase fuel s of Inl e \<Rightarrow> Inl e | Inr s' \<Rightarrow> sweep fuel s')"

text \<open>
  \<^verbatim>\<open>ConcurrentGC::gc\<close>. The lock on \<^verbatim>\<open>overMemoryThresholdMtx\<close> lets one call run at a
  time; the model is one such call.
\<close>

definition gc :: "nat \<Rightarrow> JavaFrame option \<Rightarrow> GCPolicy \<Rightarrow> vm \<Rightarrow> error + vm" where
  "gc fuel frames' policy s0 =
     (let s = s0\<lparr>frames := frames'\<rparr> in
      if \<not> overMemoryThreshold s then Inr s
      else
        (case (case policy of
                 GC_MARK_AND_SWEEP \<Rightarrow> markAndSweep fuel (signalWork s)
               | GC_OTHER n \<Rightarrow> markAndSweep fuel (signalWork s)) of
           Inl e \<Rightarrow> Inl e
         | Inr s1 \<Rightarrow>
             Inr (signalWait
                   (s1\<lparr>objectBitmap := {}, arrayBitmap := {}, overMemoryThreshold := False\<rparr>))))"

section \<open>The safepoint barrier\<close>

text \<open>
  The wait loop of \<^verbatim>\<open>stopTheWorld\<close>. The count is compared with the number of threads
  each time the waiter wakes up; \<open>arrivals\<close> lists how many other threads have raised
  the count before each later wake-up. When nobody arrives any more the waiter sleeps
  for ever.
\<close>

fun safepoint_wait :: "nat \<Rightarrow> nat list \<Rightarrow> nat \<Rightarrow> nat option" where
  "safepoint_wait threadNum [] cnt = (if cnt \<noteq> threadNum then None else Some cnt)"
| "safepoint_wait threadNum (a # arrivals) cnt =
     (if cnt \<noteq> threadNum then safepoint_wait threadNum arrivals (cnt + a) else Some cnt)"

text \<open>
  \<^verbatim>\<open>ConcurrentGC::stopTheWorld\<close>, with the value of
  \<^verbatim>\<open>YVM::executor.getThreadNum()\<close> as \<open>threadNum\<close>.
\<close>

definition stopTheWorld :: "nat \<Rightarrow> nat list \<Rightarrow> vm \<Rightarrow> error + vm" where
  "stopTheWorld threadNum arrivals s =
     (case safepoint_wait threadNum arrivals (Suc (safepointWaitCnt s)) of
        None \<Rightarrow> Inl Blocked
      | Some cnt \<Rightarrow> Inr (s\<lparr>safepointWaitCnt := cnt\<rparr>))"

section \<open>Heaps and reachability\<close>

text \<open>
  A slot holds a reference of a variant the marker knows when it is null, a
  \<^verbatim>\<open>JObject\<close> or a \<^verbatim>\<open>JArray\<close>; a heap is well formed for the marker when every field
  of every object and every element of every array is such a slot.
\<close>

definition known_variant :: "jref \<Rightarrow> bool" where
  "known_variant ref = (case ref of None \<Rightarrow> True | Some v \<Rightarrow> is_JObject v \<or> is_JArray v)"

definition heap_refs_known :: "vm \<Rightarrow> bool" where
  "heap_refs_known s =
     (list_all (\<lambda>pos. list_all known_variant (snd pos)) (objectContainer s) \<and>
      list_all (\<lambda>pos. list_all known_variant (snd (snd pos))) (arrayContainer s))"

text \<open>
  The heap values a collection cycle has to keep: those a stack slot, a local slot or
  a static field of the state refers to, and those a field or an element of such a
  value refers to.
\<close>

inductive reachable :: "vm \<Rightarrow> JType \<Rightarrow> bool" for s :: vm where
  stack_root:
    "frames s = Some chain \<Longrightarrow> temp \<in> set chain \<Longrightarrow>
     Some v \<in> set (take (nat (maxStack temp)) (stackSlots temp)) \<Longrightarrow> reachable s v"
| local_root:
    "frames s = Some chain \<Longrightarrow> temp \<in> set chain \<Longrightarrow>
     Some v \<in> set (take (nat (maxLocal temp)) (localSlots temp)) \<Longrightarrow> reachable s v"
| static_root:
    "(name, c) \<in> set (classTable s) \<Longrightarrow> (key, Some v) \<in> set (staticVars c) \<Longrightarrow>
     reachable s v"
| object_field:
    "reachable s (JObject off) \<Longrightarrow> getFields s off = Some flds \<Longrightarrow>
     Some v \<in> set flds \<Longrightarrow> reachable s v"
| array_element:
    "reachable s (JArray off) \<Longrightarrow> getElements s off = Some items \<Longrightarrow>
     Some v \<in> set (take (fst items) (snd items)) \<Longrightarrow> reachable s v"

section \<open>Example states\<close>

text \<open>
  A frame whose first stack slot refers to object 1. Object 1 refers to object 2,
  object 2 to array 3; object 4 and array 5 are garbage; object 1 has a monitor.
\<close>

definition example_frame :: Frame where
  "example_frame =
     \<lparr>maxStack = 2, stackSlots = [Some (JObject 1), None], maxLocal = 1, localSlots = [None]\<rparr>"

definition example_vm :: vm where
  "example_vm =
     \<lparr>objectContainer = [(1, [Some (JObject 2)]), (2, [Some (JArray 3)]), (4, [])],
      arrayContainer = [(3, 2, [None, None]), (5, 0, [])],
      monitorContainer = [(1, 7)],
      classTable = [],
      frames = None,
      overMemoryThreshold = True,
      objectBitmap = {},
      arrayBitmap = {},
      safepointWaitCnt = 0,
      work = False,
      taskQueue = [],
      nextFuture = 0\<rparr>"

text \<open>The state \<^verbatim>\<open>gc\<close> leaves when it is called on the example with the example frame.\<close>

definition example_vm_collected :: vm where
  "example_vm_collected =
     \<lparr>objectContainer = [(1, [Some (JObject 2)]), (2, [Some (JArray 3)])],
      arrayContainer = [(3, 2, [None, None])],
      monitorContainer = [],
      classTable = [],
      frames = Some [example_frame],
      overMemoryThreshold = False,
      objectBitmap = {},
      arrayBitmap = {},
      safepointWaitCnt = 0,
      work = False,
      taskQueue = [],
      nextFuture = 6\<rparr>"

text \<open>The same heap when the threshold has not been reached.\<close>

definition idle_vm :: vm where
  "idle_vm = example_vm\<lparr>overMemoryThreshold := False\<rparr>"

text \<open>
  The example at the moment \<^verbatim>\<open>markAndSweep\<close> is entered, and at the moment it calls
  \<^verbatim>\<open>sweep\<close>: objects 1 and 2 and array 3 are marked.
\<close>

definition example_vm_started :: vm where
  "example_vm_started = example_vm\<lparr>frames := Some [example_frame], work := True\<rparr>"

definition example_vm_marked :: vm where
  "example_vm_marked =
     example_vm_started\<lparr>objectBitmap := {1, 2}, arrayBitmap := {3}, nextFuture := 3\<rparr>"

text \<open>
  A class whose static field 1 refers to object 1, which refers to object 2; the frame
  chain is empty.
\<close>

definition static_root_vm :: vm where
  "static_root_vm =
     \<lparr>objectContainer = [(1, [Some (JObject 2)]), (2, [])],
      arrayContainer = [],
      monitorContainer = [],
      classTable = [(''Main'', \<lparr>staticVars = [(1, Some (JObject 1))]\<rparr>)],
      frames = Some [],
      overMemoryThreshold = True,
      objectBitmap = {},
      arrayBitmap = {},
      safepointWaitCnt = 0,
      work = False,
      taskQueue = [],
      nextFuture = 0\<rparr>"

section \<open>What marking and the tasks leave alone\<close>

text \<open>
  A projection \<open>g\<close> of the state that does not look at the mark sets is the same before
  and after a marking; one that does not look at the containers either is the same
  before and after any task.
\<close>

lemma for_slots_keeps:
  "for_slots f n buf s = Inr s' \<Longrightarrow> (\<And>r t t'. f r t = Inr t' \<Longrightarrow> g t' = g t) \<Longrightarrow>
   g s' = g s"
proof (induction f n buf s rule: for_slots.induct)
  case (3 f n x buf s)
  from "3.prems" (1) obtain t where step: "f x s = Inr t" and rest: "for_slots f n buf t = Inr s'"
    by (auto split: sum.splits)
  from "3.IH" [OF step rest "3.prems" (2)] "3.prems" (2) [OF step] show ?case by simp
qed simp_all

lemma mark_body_keeps:
  assumes rec: "\<And>r t t'. rec r t = Inr t' \<Longrightarrow> g t' = g t"
    and ob: "\<And>t h. g (t\<lparr>objectBitmap := h\<rparr>) = g t"
    and ab: "\<And>t h. g (t\<lparr>arrayBitmap := h\<rparr>) = g t"
    and res: "mark_body rec ref s = Inr s'"
  shows "g s' = g s"
proof (cases ref)
  case None
  with res show ?thesis by (simp add: mark_body_def)
next
  case (Some v)
  show ?thesis
  proof (cases v)
    case (JObject off)
    with Some res obtain flds where
      "for_slots rec (length flds) flds (s\<lparr>objectBitmap := insert off (objectBitmap s)\<rparr>) = Inr s'"
      by (auto simp: mark_body_def Let_def split: option.splits)
    from for_slots_keeps [where g = g, OF this rec] show ?thesis by (simp add: ob)
  next
    case (JArray off)
    with Some res obtain items where
      "for_slots rec (fst items) (snd items) (s\<lparr>arrayBitmap := insert off (arrayBitmap s)\<rparr>) = Inr s'"
      by (auto simp: mark_body_def Let_def split: option.splits)
    from for_slots_keeps [where g = g, OF this rec] show ?thesis by (simp add: ab)
  next
    case JOther
    with Some res show ?thesis by (simp add: mark_body_def SHOULD_NOT_REACH_HERE_def)
  qed
qed

lemma mark_keeps:
  assumes ob: "\<And>t h. g (t\<lparr>objectBitmap := h\<rparr>) = g t"
    and ab: "\<And>t h. g (t\<lparr>arrayBitmap := h\<rparr>) = g t"
  shows "mark fuel ref s = Inr s' \<Longrightarrow> g s' = g s"
proof (induction fuel arbitrary: ref s s')
  case 0
  then show ?case
    using mark_body_keeps [where g = g and rec = "\<lambda>ref s. Inl OutOfFuel"] ob ab by simp
next
  case (Suc fuel)
  from Suc.prems have "mark_body (mark fuel) ref s = Inr s'" by simp
  from mark_body_keeps [where g = g, OF Suc.IH ob ab this] show ?case .
qed

lemma mark_static_vars_keeps:
  assumes ob: "\<And>t h. g (t\<lparr>objectBitmap := h\<rparr>) = g t"
    and ab: "\<And>t h. g (t\<lparr>arrayBitmap := h\<rparr>) = g t"
  shows "mark_static_vars vars s = Inr s' \<Longrightarrow> g s' = g s"
proof (induction vars s rule: mark_static_vars.induct)
  case (2 key ref rest s)
  then show ?case by (auto simp: ob ab split: option.splits JType.splits)
qed simp_all

lemma mark_static_fields_keeps:
  assumes ob: "\<And>t h. g (t\<lparr>objectBitmap := h\<rparr>) = g t"
    and ab: "\<And>t h. g (t\<lparr>arrayBitmap := h\<rparr>) = g t"
  shows "mark_static_fields cs s = Inr s' \<Longrightarrow> g s' = g s"
proof (induction cs s rule: mark_static_fields.induct)
  case (2 name c rest s)
  then show ?case
    using mark_static_vars_keeps [where g = g, OF ob ab] by (auto split: sum.splits)
qed simp_all

lemma run_task_keeps:
  assumes ob: "\<And>t h. g (t\<lparr>objectBitmap := h\<rparr>) = g t"
    and ab: "\<And>t h. g (t\<lparr>arrayBitmap := h\<rparr>) = g t"
    and oc: "\<And>t h. g (t\<lparr>objectContainer := h\<rparr>) = g t"
    and ac: "\<And>t h. g (t\<lparr>arrayContainer := h\<rparr>) = g t"
    and mc: "\<And>t h. g (t\<lparr>monitorContainer := h\<rparr>) = g t"
    and res: "run_task fuel t s = Inr s'"
  shows "g s' = g s"
proof (cases t)
  case (StackMark temp)
  with res show ?thesis
    using for_slots_keeps [where g = g and f = "mark fuel"] mark_keeps [where g = g, OF ob ab]
    by auto
next
  case (LocalMark temp)
  with res show ?thesis
    using for_slots_keeps [where g = g and f = "mark fuel"] mark_keeps [where g = g, OF ob ab]
    by auto
next
  case StaticFieldsMark
  with res show ?thesis using mark_static_fields_keeps [where g = g, OF ob ab] by auto
next
  case ObjectSweep
  with res show ?thesis by (auto simp: oc)
next
  case ArraySweep
  with res show ?thesis by (auto simp: ac)
next
  case MonitorSweep
  with res show ?thesis by (auto simp: mc)
qed

text \<open>The rendezvous count and the recorded frame chain through a collection.\<close>

lemma future_get_control:
  "future_get fuel f s = Inr s' \<Longrightarrow>
   safepointWaitCnt s' = safepointWaitCnt s \<and> frames s' = frames s"
  using run_task_keeps [where g = "\<lambda>s. (safepointWaitCnt s, frames s)"]
  by (auto simp: future_get_def split: option.splits if_splits)

lemma get_all_control:
  "get_all fuel fs s = Inr s' \<Longrightarrow>
   safepointWaitCnt s' = safepointWaitCnt s \<and> frames s' = frames s"
proof (induction fs arbitrary: s)
  case (Cons f fs)
  then show ?case using future_get_control by (fastforce split: sum.splits)
qed simp

lemma submit_frames_control:
  "submit_frames chain (sfs, lfs, s) = (sfs', lfs', s') \<Longrightarrow>
   safepointWaitCnt s' = safepointWaitCnt s \<and> frames s' = frames s"
  by (induction chain arbitrary: sfs lfs s) (auto simp: submit_def)

lemma mark_phase_control:
  assumes run: "mark_phase fuel s = Inr s'"
  shows "safepointWaitCnt s' = safepointWaitCnt s \<and> frames s' = frames s"
proof -
  from run obtain chain where chain: "frames s = Some chain"
    by (auto simp: mark_phase_def split: option.splits)
  obtain sfs lfs s1 where sub: "submit_frames chain ([], [], s) = (sfs, lfs, s1)"
    by (cases "submit_frames chain ([], [], s)") auto
  from run chain sub have "get_all fuel (nextFuture s1 # sfs @ lfs)
      (s1\<lparr>taskQueue := taskQueue s1 @ [(nextFuture s1, StaticFieldsMark)],
          nextFuture := Suc (nextFuture s1)\<rparr>) = Inr s'"
    by (simp add: mark_phase_def submit_def del: get_all.simps)
  from get_all_control [OF this] submit_frames_control [OF sub] show ?thesis by simp
qed

lemma sweep_control:
  assumes "sweep fuel s = Inr s'"
  shows "safepointWaitCnt s' = safepointWaitCnt s \<and> frames s' = frames s"
proof -
  from assms obtain fs t where "get_all fuel fs t = Inr s'"
    and "safepointWaitCnt t = safepointWaitCnt s" and "frames t = frames s"
    by (simp add: sweep_def submit_def del: get_all.simps)
  with get_all_control show ?thesis by metis
qed

lemma markAndSweep_control:
  assumes "markAndSweep fuel s = Inr s'"
  shows "safepointWaitCnt s' = safepointWaitCnt s \<and> frames s' = frames s"
proof -
  from assms obtain t where "mark_phase fuel s = Inr t" and "sweep fuel t = Inr s'"
    by (auto simp: markAndSweep_def split: sum.splits)
  with mark_phase_control sweep_control show ?thesis by metis
qed

lemma gc_control:
  assumes "gc fuel fr p s = Inr s'"
  shows "safepointWaitCnt s' = safepointWaitCnt s \<and> frames s' = fr"
proof (cases "overMemoryThreshold s")
  case False
  with assms show ?thesis by (auto simp: gc_def)
next
  case True
  with assms obtain s1 where run: "markAndSweep fuel (signalWork (s\<lparr>frames := fr\<rparr>)) = Inr s1"
    and s': "s' = signalWait
      (s1\<lparr>objectBitmap := {}, arrayBitmap := {}, overMemoryThreshold := False\<rparr>)"
    by (cases p) (auto simp: gc_def Let_def split: sum.splits)
  from markAndSweep_control [OF run] s' show ?thesis
    by (simp add: signalWork_def signalWait_def)
qed

lemma safepoint_wait_Some:
  "safepoint_wait threadNum arrivals cnt = Some c \<Longrightarrow> c = threadNum \<and> cnt \<le> c"
  by (induction threadNum arrivals cnt rule: safepoint_wait.induct)
     (auto split: if_splits)

section \<open>Slots of a known variant\<close>

lemma heap_refs_known_marks [simp]:
  "heap_refs_known (s\<lparr>objectBitmap := h\<rparr>) = heap_refs_known s"
  "heap_refs_known (s\<lparr>arrayBitmap := h\<rparr>) = heap_refs_known s"
  by (simp_all add: heap_refs_known_def)

lemma known_fields:
  "heap_refs_known s \<Longrightarrow> getFields s off = Some flds \<Longrightarrow> list_all known_variant flds"
  by (auto simp: heap_refs_known_def getFields_def list_all_iff dest!: map_of_SomeD)

lemma known_elements:
  "heap_refs_known s \<Longrightarrow> getElements s off = Some items \<Longrightarrow>
   list_all known_variant (snd items)"
  by (auto simp: heap_refs_known_def getElements_def list_all_iff dest!: map_of_SomeD)

lemma for_slots_no_violation:
  "list_all known_variant buf \<Longrightarrow> heap_refs_known s \<Longrightarrow>
   (\<And>r t. known_variant r \<Longrightarrow> heap_refs_known t \<Longrightarrow> f r t \<noteq> Inl InvariantViolation) \<Longrightarrow>
   (\<And>r t t'. f r t = Inr t' \<Longrightarrow> heap_refs_known t' = heap_refs_known t) \<Longrightarrow>
   for_slots f n buf s \<noteq> Inl InvariantViolation"
proof (induction f n buf s rule: for_slots.induct)
  case (3 f n x buf s)
  show ?case
  proof (cases "f x s")
    case (Inl e)
    with "3.prems" show ?thesis by auto
  next
    case (Inr t)
    with "3.prems" have "heap_refs_known t" by blast
    with "3.IH" [OF Inr] "3.prems" Inr show ?thesis by simp
  qed
qed simp_all

lemma mark_body_no_violation:
  assumes rec: "\<And>r t. known_variant r \<Longrightarrow> heap_refs_known t \<Longrightarrow> rec r t \<noteq> Inl InvariantViolation"
    and keeps: "\<And>r t t'. rec r t = Inr t' \<Longrightarrow> heap_refs_known t' = heap_refs_known t"
    and known: "known_variant ref" and heap: "heap_refs_known s"
  shows "mark_body rec ref s \<noteq> Inl InvariantViolation"
proof (cases ref)
  case None
  then show ?thesis by (simp add: mark_body_def)
next
  case (Some v)
  show ?thesis
  proof (cases v)
    case (JObject off)
    let ?s = "s\<lparr>objectBitmap := insert off (objectBitmap s)\<rparr>"
    show ?thesis
    proof (cases "getFields ?s off")
      case None
      with Some JObject show ?thesis by (simp add: mark_body_def)
    next
      case (Some flds)
      from heap have h: "heap_refs_known ?s" by simp
      from for_slots_no_violation [OF known_fields [OF h Some] h rec keeps]
      show ?thesis using \<open>ref = Some v\<close> JObject Some by (simp add: mark_body_def)
    qed
  next
    case (JArray off)
    let ?s = "s\<lparr>arrayBitmap := insert off (arrayBitmap s)\<rparr>"
    show ?thesis
    proof (cases "getElements ?s off")
      case None
      with Some JArray show ?thesis by (simp add: mark_body_def)
    next
      case (Some items)
      from heap have h: "heap_refs_known ?s" by simp
      from for_slots_no_violation [OF known_elements [OF h Some] h rec keeps]
      show ?thesis using \<open>ref = Some v\<close> JArray Some by (simp add: mark_body_def)
    qed
  next
    case JOther
    with Some known show ?thesis by (simp add: known_variant_def)
  qed
qed

lemma mark_no_violation:
  "known_variant ref \<Longrightarrow> heap_refs_known s \<Longrightarrow> mark fuel ref s \<noteq> Inl InvariantViolation"
proof (induction fuel arbitrary: ref s)
  case 0
  then show ?case
    using mark_body_no_violation [where rec = "\<lambda>ref s. Inl OutOfFuel"] by simp
next
  case (Suc fuel)
  have keeps: "\<And>r t t'. mark fuel r t = Inr t' \<Longrightarrow> heap_refs_known t' = heap_refs_known t"
    by (rule mark_keeps [where g = heap_refs_known]) simp_all
  from mark_body_no_violation [OF Suc.IH keeps Suc.prems] show ?case by simp
qed

section \<open>The queue of pending tasks\<close>

lemma take_task_None: "take_task f q = None \<Longrightarrow> f \<notin> fst ` set q"
  by (induction q) (auto split: if_splits option.splits)

lemma take_task_Some:
  "take_task f q = Some (t, q') \<Longrightarrow> distinct (map fst q) \<Longrightarrow>
   fst ` set q' = fst ` set q - {f} \<and> distinct (map fst q')"
proof (induction q arbitrary: q')
  case Nil
  then show ?case by simp
next
  case (Cons p q)
  show ?case
  proof (cases "fst p = f")
    case True
    with Cons.prems show ?thesis by auto
  next
    case False
    with Cons.prems obtain r where r: "take_task f q = Some (t, r)" and q': "q' = p # r"
      by (auto split: option.splits)
    from Cons.IH [OF r] Cons.prems(2) have "fst ` set r = fst ` set q - {f}" "distinct (map fst r)"
      by simp_all
    with q' False Cons.prems(2) show ?thesis by auto
  qed
qed

lemma run_task_queue: "run_task fuel t s = Inr s' \<Longrightarrow> taskQueue s' = taskQueue s"
  by (rule run_task_keeps [where g = taskQueue]) simp_all

lemma future_get_queue:
  assumes "future_get fuel f s = Inr s'" and "distinct (map fst (taskQueue s))"
  shows "fst ` set (taskQueue s') = fst ` set (taskQueue s) - {f} \<and>
         distinct (map fst (taskQueue s'))"
proof (cases "take_task f (taskQueue s)")
  case None
  with assms(1) have "s' = s" by (simp add: future_get_def)
  with take_task_None [OF None] assms(2) show ?thesis by auto
next
  case (Some tq)
  obtain t q where tq: "tq = (t, q)" by (cases tq)
  with Some assms(1) have "run_task fuel t (s\<lparr>taskQueue := q\<rparr>) = Inr s'"
    by (simp add: future_get_def split: if_splits)
  from run_task_queue [OF this] have "taskQueue s' = q" by simp
  with take_task_Some [OF Some [unfolded tq] assms(2)] show ?thesis by simp
qed

lemma get_all_queue:
  "get_all fuel fs s = Inr s' \<Longrightarrow> distinct (map fst (taskQueue s)) \<Longrightarrow>
   fst ` set (taskQueue s') = fst ` set (taskQueue s) - set fs \<and>
   distinct (map fst (taskQueue s'))"
proof (induction fs arbitrary: s)
  case Nil
  then show ?case by simp
next
  case (Cons f fs)
  from Cons.prems(1) obtain t where one: "future_get fuel f s = Inr t"
    and rest: "get_all fuel fs t = Inr s'"
    by (auto split: sum.splits)
  from future_get_queue [OF one Cons.prems(2)] Cons.IH [OF rest] show ?case by auto
qed

text \<open>
  What the submissions of \<^verbatim>\<open>markAndSweep\<close> leave: the futures handed out are those from
  the old \<open>nextFuture\<close> up to the new one, each pending once.
\<close>

lemma submit_frames_queue:
  "submit_frames chain (sfs, lfs, s) = (sfs', lfs', s') \<Longrightarrow>
   nextFuture s \<le> nextFuture s' \<and>
   map fst (taskQueue s') = map fst (taskQueue s) @ [nextFuture s..<nextFuture s'] \<and>
   set sfs' \<union> set lfs' = set sfs \<union> set lfs \<union> {nextFuture s..<nextFuture s'}"
proof (induction chain arbitrary: sfs lfs s)
  case Nil
  then show ?case by simp
next
  case (Cons temp chain)
  let ?n = "nextFuture s"
  let ?s2 = "s\<lparr>taskQueue := taskQueue s @ [(?n, StackMark temp)] @ [(Suc ?n, LocalMark temp)],
               nextFuture := Suc (Suc ?n)\<rparr>"
  from Cons.prems have
    "submit_frames chain (sfs @ [?n], lfs @ [Suc ?n], ?s2) = (sfs', lfs', s')"
    by (simp add: submit_def)
  from Cons.IH [OF this] have le: "Suc (Suc ?n) \<le> nextFuture s'"
    and q: "map fst (taskQueue s') =
        map fst (taskQueue s) @ [?n, Suc ?n] @ [Suc (Suc ?n)..<nextFuture s']"
    and fs: "set sfs' \<union> set lfs' =
        set sfs \<union> set lfs \<union> {?n, Suc ?n} \<union> {Suc (Suc ?n)..<nextFuture s'}"
    by auto
  from le have "[?n..<nextFuture s'] = [?n, Suc ?n] @ [Suc (Suc ?n)..<nextFuture s']"
    by (simp add: upt_conv_Cons)
  moreover from le have "{?n..<nextFuture s'} = {?n, Suc ?n} \<union> {Suc (Suc ?n)..<nextFuture s'}"
    by auto
  ultimately show ?case using le q fs by auto
qed

lemma mark_phase_drains:
  assumes "taskQueue s = []" and "mark_phase fuel s = Inr s'"
  shows "taskQueue s' = []"
proof -
  from assms(2) obtain chain where chain: "frames s = Some chain"
    by (auto simp: mark_phase_def split: option.splits)
  obtain sfs lfs s1 where sub: "submit_frames chain ([], [], s) = (sfs, lfs, s1)"
    by (cases "submit_frames chain ([], [], s)") auto
  let ?s2 = "s1\<lparr>taskQueue := taskQueue s1 @ [(nextFuture s1, StaticFieldsMark)],
                 nextFuture := Suc (nextFuture s1)\<rparr>"
  from assms(2) chain sub have run: "get_all fuel (nextFuture s1 # sfs @ lfs) ?s2 = Inr s'"
    by (simp add: mark_phase_def submit_def)
  from submit_frames_queue [OF sub] assms(1) have
    q1: "map fst (taskQueue s1) = [nextFuture s..<nextFuture s1]"
    and fs: "set sfs \<union> set lfs = {nextFuture s..<nextFuture s1}"
    and le: "nextFuture s \<le> nextFuture s1"
    by simp_all
  from q1 have d: "distinct (map fst (taskQueue ?s2))" by simp
  from q1 have ids: "fst ` set (taskQueue ?s2) = {nextFuture s..<nextFuture s1} \<union> {nextFuture s1}"
    by (simp add: image_Un flip: set_map)
  from get_all_queue [OF run d] ids fs have "fst ` set (taskQueue s') = {}" by auto
  then show ?thesis by simp
qed

section \<open>The example states, evaluated\<close>

lemma example_gc:
  "gc 3 (Some [example_frame]) GC_MARK_AND_SWEEP example_vm = Inr example_vm_collected"
  by code_simp

lemma example_mark_phase: "mark_phase 3 example_vm_started = Inr example_vm_marked"
  by code_simp

lemma example_known: "heap_refs_known example_vm"
  by (simp add: heap_refs_known_def example_vm_def known_variant_def)

lemma example_flag: "overMemoryThreshold example_vm"
  by (simp add: example_vm_def)

lemma static_child_reachable: "reachable static_root_vm (JObject 2)"
proof -
  have "reachable static_root_vm (JObject 1)"
    by (rule static_root [where name = "''Main''" and key = 1
          and c = "\<lparr>staticVars = [(1, Some (JObject 1))]\<rparr>"])
       (simp_all add: static_root_vm_def)
  then show ?thesis
    by (rule object_field [where off = 1 and flds = "[Some (JObject 2)]"])
       (simp_all add: static_root_vm_def getFields_def)
qed

section \<open>Properties of the collector\<close>

text \<open>
  C1. A heap value that can be reached from a stack slot, a local slot or a static
  field when a cycle starts should still be in its container when \<^verbatim>\<open>gc\<close> returns.
  The code does not keep to this for static fields, whose task inserts the key of the
  entry and follows nothing. In the state below the static field 1 of a class refers
  to object 1, whose only field refers to object 2: object 2 is reachable and has an
  entry before the cycle, the cycle returns normally, and object 2 has no entry after
  it (object 1, which survives, is left with a dangling field).
\<close>

theorem static_root_child_swept:
  "reachable static_root_vm (JObject 2) \<and>
   getFields static_root_vm 2 = Some [] \<and>
   gc 0 (frames static_root_vm) GC_MARK_AND_SWEEP static_root_vm =
     Inr (static_root_vm\<lparr>objectContainer := [(1, [Some (JObject 2)])],
            overMemoryThreshold := False, nextFuture := 4\<rparr>) \<and>
   getFields (static_root_vm\<lparr>objectContainer := [(1, [Some (JObject 2)])],
            overMemoryThreshold := False, nextFuture := 4\<rparr>) 2 = None"
proof -
  have "gc 0 (frames static_root_vm) GC_MARK_AND_SWEEP static_root_vm =
     Inr (static_root_vm\<lparr>objectContainer := [(1, [Some (JObject 2)])],
            overMemoryThreshold := False, nextFuture := 4\<rparr>)"
    by code_simp
  with static_child_reachable show ?thesis
    by (simp add: getFields_def static_root_vm_def)
qed

text \<open>
  C2. A monitor whose offset is in the object mark set and not in the array mark set
  should survive \<^verbatim>\<open>sweep\<close>. The code erases it: the test of the monitor loop is
  "absent from the object mark set \<^emph>\<open>or\<close> absent from the array mark set". In the
  state below, the example at the moment \<^verbatim>\<open>sweep\<close> is called, object 1 is marked, is
  no array and has monitor 7; \<^verbatim>\<open>sweep\<close> keeps object 1 and leaves the monitor
  container empty.
\<close>

theorem live_object_monitor_swept:
  "1 \<in> objectBitmap example_vm_marked \<and> 1 \<notin> arrayBitmap example_vm_marked \<and>
   map_of (monitorContainer example_vm_marked) 1 = Some 7 \<and>
   sweep 0 example_vm_marked =
     Inr (example_vm_marked\<lparr>objectContainer := [(1, [Some (JObject 2)]), (2, [Some (JArray 3)])],
            arrayContainer := [(3, 2, [None, None])], monitorContainer := [],
            nextFuture := 6\<rparr>)"
proof -
  have "sweep 0 example_vm_marked =
     Inr (example_vm_marked\<lparr>objectContainer := [(1, [Some (JObject 2)]), (2, [Some (JArray 3)])],
            arrayContainer := [(3, 2, [None, None])], monitorContainer := [],
            nextFuture := 6\<rparr>)"
    by code_simp
  then show ?thesis
    by (simp add: example_vm_marked_def example_vm_started_def example_vm_def)
qed

text \<open>
  C3, as stated, fails: a collecting cycle does not call \<^verbatim>\<open>stopTheWorld\<close>. Every call
  of \<^verbatim>\<open>stopTheWorld\<close> raises the rendezvous count, and on the example, with one active
  thread, it returns with the count at 1; the collecting cycle on the same state
  returns with the count at 0, where it was.
\<close>

theorem gc_calls_no_stopTheWorld:
  "overMemoryThreshold example_vm \<and>
   gc 3 (Some [example_frame]) GC_MARK_AND_SWEEP example_vm = Inr example_vm_collected \<and>
   safepointWaitCnt example_vm = 0 \<and> safepointWaitCnt example_vm_collected = 0 \<and>
   stopTheWorld 1 [] example_vm = Inr (example_vm\<lparr>safepointWaitCnt := 1\<rparr>)"
  using example_gc
  by (simp add: example_vm_def example_vm_collected_def stopTheWorld_def)

text \<open>
  C3, amended. \<^verbatim>\<open>gc\<close> leaves the rendezvous to its caller: a call of \<^verbatim>\<open>gc\<close> that
  returns, collecting or not, returns with the rendezvous count it was entered with.
  The rendezvous is what a call of \<^verbatim>\<open>stopTheWorld\<close> does: it raises the count, and when
  it returns the count equals the number of active threads.
\<close>

theorem gc_leaves_rendezvous_to_caller:
  "(gc fuel fr p s = Inr s' \<longrightarrow> safepointWaitCnt s' = safepointWaitCnt s) \<and>
   (stopTheWorld threadNum arrivals s = Inr s'' \<longrightarrow>
      safepointWaitCnt s'' = threadNum \<and> safepointWaitCnt s < safepointWaitCnt s'')"
proof (rule conjI; rule impI)
  assume "gc fuel fr p s = Inr s'"
  from gc_control [OF this] show "safepointWaitCnt s' = safepointWaitCnt s" by simp
next
  assume "stopTheWorld threadNum arrivals s = Inr s''"
  then obtain c where "safepoint_wait threadNum arrivals (Suc (safepointWaitCnt s)) = Some c"
    and "s'' = s\<lparr>safepointWaitCnt := c\<rparr>"
    by (auto simp: stopTheWorld_def split: option.splits)
  with safepoint_wait_Some [of threadNum arrivals "Suc (safepointWaitCnt s)" c]
  show "safepointWaitCnt s'' = threadNum \<and> safepointWaitCnt s < safepointWaitCnt s''"
    by auto
qed

text \<open>
  On the example: the cycle returns with the count at 0; \<^verbatim>\<open>stopTheWorld\<close> with two
  active threads, the other one arriving before the second wake-up, returns with the
  count at 2.
\<close>

theorem gc_leaves_rendezvous_to_caller_witness:
  "gc 3 (Some [example_frame]) GC_MARK_AND_SWEEP example_vm = Inr example_vm_collected \<and>
   safepointWaitCnt example_vm_collected = safepointWaitCnt example_vm \<and>
   stopTheWorld 2 [0, 1] example_vm = Inr (example_vm\<lparr>safepointWaitCnt := 2\<rparr>) \<and>
   safepointWaitCnt (example_vm\<lparr>safepointWaitCnt := 2\<rparr>) = 2 \<and>
   safepointWaitCnt example_vm < safepointWaitCnt (example_vm\<lparr>safepointWaitCnt := 2\<rparr>)"
proof -
  have stop: "stopTheWorld 2 [0, 1] example_vm = Inr (example_vm\<lparr>safepointWaitCnt := 2\<rparr>)"
    by (simp add: stopTheWorld_def example_vm_def)
  from gc_leaves_rendezvous_to_caller [of 3 "Some [example_frame]" GC_MARK_AND_SWEEP
      example_vm example_vm_collected 2 "[0, 1]" "example_vm\<lparr>safepointWaitCnt := 2\<rparr>"]
    example_gc stop
  show ?thesis by simp
qed

text \<open>
  C4. Called while the over-memory-threshold flag is clear, \<^verbatim>\<open>gc\<close> returns normally,
  whatever the frame chain, the policy and the recursion bound, and leaves the object,
  array and monitor containers, both mark sets and the flag as they were. It has not
  run mark-and-sweep: the pool has not been woken and no task has been submitted.
\<close>

theorem gc_spurious_noop:
  assumes "\<not> overMemoryThreshold s"
  shows "\<exists>s'. gc fuel fr p s = Inr s' \<and>
           objectContainer s' = objectContainer s \<and> arrayContainer s' = arrayContainer s \<and>
           monitorContainer s' = monitorContainer s \<and>
           objectBitmap s' = objectBitmap s \<and> arrayBitmap s' = arrayBitmap s \<and>
           overMemoryThreshold s' = overMemoryThreshold s \<and>
           work s' = work s \<and> taskQueue s' = taskQueue s \<and> nextFuture s' = nextFuture s"
  using assms by (simp add: gc_def)

theorem gc_spurious_noop_witness:
  "\<not> overMemoryThreshold idle_vm \<and>
   (\<exists>s'. gc 0 (Some [example_frame]) (GC_OTHER 5) idle_vm = Inr s' \<and>
      objectContainer s' = objectContainer idle_vm \<and>
      arrayContainer s' = arrayContainer idle_vm \<and>
      monitorContainer s' = monitorContainer idle_vm \<and>
      objectBitmap s' = objectBitmap idle_vm \<and> arrayBitmap s' = arrayBitmap idle_vm \<and>
      overMemoryThreshold s' = overMemoryThreshold idle_vm \<and>
      work s' = work idle_vm \<and> taskQueue s' = taskQueue idle_vm \<and>
      nextFuture s' = nextFuture idle_vm)"
proof -
  have clear: "\<not> overMemoryThreshold idle_vm" by (simp add: idle_vm_def)
  from gc_spurious_noop [OF clear, of 0 "Some [example_frame]" "GC_OTHER 5"] clear
  show ?thesis by simp
qed

text \<open>
  C5. For every collector state and every recursion bound, \<^verbatim>\<open>mark(nullptr)\<close> returns
  normally (it faults in no way: the null check comes before any look at the type) and
  gives back the state it was given: nothing is inserted into the object mark set or
  into the array mark set.
\<close>

theorem mark_null_noop: "mark fuel None s = Inr s"
  by (cases fuel) (simp_all add: mark_body_def)

text \<open>
  C6. When \<^verbatim>\<open>gc\<close> is entered with the over-memory-threshold flag set and returns
  normally, the object mark set and the array mark set are empty and the flag is
  clear in the state it returns.
\<close>

theorem gc_resets_marks:
  assumes "overMemoryThreshold s" and "gc fuel fr p s = Inr s'"
  shows "objectBitmap s' = {} \<and> arrayBitmap s' = {} \<and> \<not> overMemoryThreshold s'"
  using assms
  by (auto simp: gc_def Let_def signalWait_def split: sum.splits GCPolicy.splits)

theorem gc_resets_marks_witness:
  "overMemoryThreshold example_vm \<and>
   gc 3 (Some [example_frame]) GC_MARK_AND_SWEEP example_vm = Inr example_vm_collected \<and>
   objectBitmap example_vm_collected = {} \<and> arrayBitmap example_vm_collected = {} \<and>
   \<not> overMemoryThreshold example_vm_collected"
  using gc_resets_marks [OF example_flag example_gc] example_flag example_gc by simp

text \<open>
  C7. \<^verbatim>\<open>sweep\<close> begins only when every marking task has completed. A task is pending
  from its submission until it has run, and runs at the latest when its future is
  awaited. When \<^verbatim>\<open>markAndSweep\<close>, entered with no task pending, reaches its call of
  \<^verbatim>\<open>sweep\<close>, no task is pending: the static-field future and the stack and local
  futures of every frame have been awaited. \<^verbatim>\<open>sweep\<close> is called on that state.
\<close>

theorem sweep_after_all_marking:
  assumes "taskQueue s = []" and "mark_phase fuel s = Inr s'"
  shows "taskQueue s' = [] \<and> markAndSweep fuel s = sweep fuel s'"
  using mark_phase_drains [OF assms] assms(2) by (simp add: markAndSweep_def)

theorem sweep_after_all_marking_witness:
  "taskQueue example_vm_started = [] \<and>
   mark_phase 3 example_vm_started = Inr example_vm_marked \<and>
   taskQueue example_vm_marked = [] \<and>
   markAndSweep 3 example_vm_started = sweep 3 example_vm_marked"
proof -
  have empty: "taskQueue example_vm_started = []"
    by (simp add: example_vm_started_def example_vm_def)
  from sweep_after_all_marking [OF empty example_mark_phase] empty example_mark_phase
  show ?thesis by simp
qed

text \<open>
  C8. \<^verbatim>\<open>mark\<close> on a non-null reference whose variant is neither \<^verbatim>\<open>JObject\<close> nor
  \<^verbatim>\<open>JArray\<close> ends in the invariant violation, at every recursion bound and in every
  state. On a reference that is a \<^verbatim>\<open>JObject\<close> or a \<^verbatim>\<open>JArray\<close>, in a heap whose
  fields and elements are null, \<^verbatim>\<open>JObject\<close> or \<^verbatim>\<open>JArray\<close>, it never does: that branch
  is not reached, however deep the marking goes.
\<close>

theorem mark_unknown_variant_fatal:
  "(\<not> is_JObject v \<and> \<not> is_JArray v \<longrightarrow> mark fuel (Some v) s = Inl InvariantViolation) \<and>
   ((is_JObject v \<or> is_JArray v) \<and> heap_refs_known s \<longrightarrow>
      mark fuel (Some v) s \<noteq> Inl InvariantViolation)"
proof (rule conjI; rule impI)
  assume "\<not> is_JObject v \<and> \<not> is_JArray v"
  then have "v = JOther" by (cases v) simp_all
  then show "mark fuel (Some v) s = Inl InvariantViolation"
    by (cases fuel) (simp_all add: mark_body_def SHOULD_NOT_REACH_HERE_def)
next
  assume "(is_JObject v \<or> is_JArray v) \<and> heap_refs_known s"
  then show "mark fuel (Some v) s \<noteq> Inl InvariantViolation"
    using mark_no_violation [of "Some v" s fuel] by (simp add: known_variant_def)
qed

theorem mark_unknown_variant_fatal_witness:
  "\<not> is_JObject JOther \<and> \<not> is_JArray JOther \<and>
   mark 3 (Some JOther) example_vm = Inl InvariantViolation \<and>
   is_JObject (JObject 1) \<and> heap_refs_known example_vm \<and>
   mark 3 (Some (JObject 1)) example_vm \<noteq> Inl InvariantViolation"
  using mark_unknown_variant_fatal [of JOther 3 example_vm]
    mark_unknown_variant_fatal [of "JObject 1" 3 example_vm] example_known
  by simp

text \<open>
  C9. Whatever the policy, \<^verbatim>\<open>gc\<close> gives the result it gives for
  \<^verbatim>\<open>GC_MARK_AND_SWEEP\<close>, on every frame chain, state and recursion bound: the same
  state when it returns, the same failure when it does not.
\<close>

theorem gc_policy_irrelevant: "gc fuel fr p s = gc fuel fr GC_MARK_AND_SWEEP s"
  by (cases p) (simp_all add: gc_def Let_def)

text \<open>
  C10. \<^verbatim>\<open>gc\<close> stores its frame-chain argument before it looks at the flag: whenever
  it returns, the recorded frame chain is the argument, and a call with the flag clear
  returns the state it was given with the recorded frame chain overwritten.
\<close>

theorem gc_records_frames:
  "(gc fuel fr p s = Inr s' \<longrightarrow> frames s' = fr) \<and>
   (\<not> overMemoryThreshold s \<longrightarrow> gc fuel fr p s = Inr (s\<lparr>frames := fr\<rparr>))"
proof (rule conjI; rule impI)
  assume "gc fuel fr p s = Inr s'"
  from gc_control [OF this] show "frames s' = fr" by simp
next
  assume "\<not> overMemoryThreshold s"
  then show "gc fuel fr p s = Inr (s\<lparr>frames := fr\<rparr>)" by (simp add: gc_def)
qed

theorem gc_records_frames_witness:
  "\<not> overMemoryThreshold idle_vm \<and> frames idle_vm = None \<and>
   gc 0 (Some [example_frame]) GC_MARK_AND_SWEEP idle_vm =
     Inr (idle_vm\<lparr>frames := Some [example_frame]\<rparr>) \<and>
   frames (idle_vm\<lparr>frames := Some [example_frame]\<rparr>) = Some [example_frame]"
proof -
  have clear: "\<not> overMemoryThreshold idle_vm" and none: "frames idle_vm = None"
    by (simp_all add: idle_vm_def example_vm_def)
  from gc_records_frames [of 0 "Some [example_frame]" GC_MARK_AND_SWEEP idle_vm
      "idle_vm\<lparr>frames := Some [example_frame]\<rparr>"] clear none
  show ?thesis by simp
qed

end
